theory Spec2Isabelle
  imports Complex_Main "HOL-Library.Word" "HOL-Library.Sublist" "HOL-Library.Log_Nat"
begin

section \<open>The loader: \<open>libbpf-tools/readahead.c\<close>\<close>

subsection \<open>Configuration and observable events\<close>

text \<open>
  \<open>static struct env { int duration; bool verbose; } env = { .duration = -1 };\<close>
  A C \<open>int\<close> is a 32-bit word, read signed with \<open>sint\<close>.
\<close>

record env =
  duration :: "32 word"
  verbose :: bool

definition env_initial :: env where
  "env_initial = \<lparr>duration = - 1, verbose = False\<rparr>"

text \<open>The six BPF programs of the skeleton that \<open>main\<close> may attach.\<close>

datatype prog =
    Do_page_cache_ra
  | Do_page_cache_ra_ret
  | Do_page_cache_readahead
  | Do_page_cache_readahead_ret
  | Page_cache_alloc_ret
  | Mark_page_accessed

datatype libbpf_print_level = LIBBPF_WARN | LIBBPF_INFO | LIBBPF_DEBUG

text \<open>
  \<open>struct hist\<close> of \<open>readahead.h\<close>, as \<open>main\<close> reads it: the two counters and the
  slot array.
\<close>

record hist =
  unused :: nat
  total :: nat
  slots :: "nat list"

text \<open>
  Everything the process does that can be seen from outside, in program order:
  text on stdout and stderr, links established, the blocking wait, the teardown.
\<close>

datatype event =
    Out string
  | Out_unused_total nat nat
  | Out_log2_hist "nat list" nat string
  | Err string
  | Err_attach prog int
  | Err_libbpf libbpf_print_level string
  | Usage
  | Link prog
  | Handler_installed
  | Sleep "32 word" nat
  | Bpf_destroy
  | Ksyms_free

subsection \<open>What the process receives from outside\<close>

text \<open>
  The library and kernel calls of \<open>main\<close> are not part of this program; their results are
  inputs. \<open>strtol\<close> gives the \<open>long\<close> it returns and the \<open>errno\<close> it leaves;
  \<open>ksyms_load\<close> is \<open>None\<close> when \<open>ksyms__load()\<close> returns \<open>NULL\<close>, else the symbol
  names for which \<open>ksyms__get_symbol\<close> finds an entry; \<open>attach_error p\<close> is the value
  that \<open>libbpf_get_error\<close> stores in \<open>err\<close> after \<open>bpf_program__attach\<close> of \<open>p\<close>;
  \<open>libbpf_log c\<close> are the diagnostics libbpf hands to the print callback during call
  \<open>c\<close>; \<open>sigint\<close> is the second of the wait in which the operator interrupts, if ever;
  \<open>hist_at t\<close> is \<open>obj->bss->hist\<close> after \<open>t\<close> seconds of tracing; \<open>max_slots\<close> is
  the constant \<open>MAX_SLOTS\<close> of \<open>readahead.h\<close>.
\<close>

datatype libbpf_call = Call_open_and_load | Call_attach prog | Call_destroy

record world =
  strtol :: "string \<Rightarrow> 64 word \<times> int"
  bump_memlock_rlimit :: int
  open_and_load :: bool
  ksyms_load :: "string list option"
  attach_error :: "prog \<Rightarrow> int"
  libbpf_log :: "libbpf_call \<Rightarrow> (libbpf_print_level \<times> string) list"
  sigint :: "nat option"
  hist_at :: "nat \<Rightarrow> hist"
  max_slots :: nat

subsection \<open>\<open>parse_arg\<close> and the option loop\<close>

definition ARGP_ERR_UNKNOWN :: int where
  "ARGP_ERR_UNKNOWN = 7"

definition ARGP_KEY_ARG :: int where
  "ARGP_KEY_ARG = 0"

definition argp_err_exit_status :: int where
  "argp_err_exit_status = 64"

definition key_v :: int where
  "key_v = 118"

definition key_d :: int where
  "key_d = 100"

text \<open>
  A call either returns to its caller (an error code, the configuration, what it printed)
  or ends the process (exit status, what was printed up to there).
\<close>

datatype parsed = Returned int env "event list" | Exited int "event list"

text \<open>
  \<open>parse_arg\<close>: \<open>'v'\<close> sets the flag; \<open>'d'\<close> stores \<open>strtol\<close>'s result in the
  \<open>int\<close> (the low 32 bits of the \<open>long\<close>) and, when \<open>errno\<close> is set or the stored value
  is not positive, prints the message and calls \<open>argp_usage\<close>, which prints the usage
  text and exits (the parser runs with flags \<open>0\<close>); any other key is unknown.
\<close>

definition parse_arg :: "world \<Rightarrow> int \<Rightarrow> string \<Rightarrow> env \<Rightarrow> parsed" where
  "parse_arg w key arg e =
     (if key = key_v then Returned 0 (e\<lparr>verbose := True\<rparr>) []
      else if key = key_d then
        (let (v, errno) = strtol w arg;
             e' = e\<lparr>duration := ucast v\<rparr>
         in if errno \<noteq> 0 \<or> sint (duration e') \<le> 0
            then Exited argp_err_exit_status
                   [Err (''Invalid duration: '' @ arg), Usage]
            else Returned 0 e' [])
      else Returned ARGP_ERR_UNKNOWN e [])"

text \<open>
  A \<open>long\<close> whose value an \<open>int\<close> can hold (\<open>INT_MIN\<close> to \<open>INT_MAX\<close>): for such a value
  the assignment to \<open>env.duration\<close> keeps it.
\<close>

definition fits_int :: "64 word \<Rightarrow> bool" where
  "fits_int v = (- (2 ^ 31) \<le> sint v \<and> sint v < 2 ^ 31)"

text \<open>
  \<open>argp_parse\<close> calls the parser once for every key it finds on the command line, in
  order; a command line is given as that list of keys with their arguments (\<open>'v'\<close>,
  \<open>'d'\<close>, \<open>ARGP_KEY_ARG\<close> for a positional argument, and the keys argp sends on its own
  account). An unknown key is skipped, except that an unclaimed positional argument is a
  usage error; any other error of the parser is returned to \<open>main\<close>. The options argp
  answers by itself (help, usage, version) end the process before the parser matters and
  are left out.
\<close>

fun argp_parse :: "world \<Rightarrow> (int \<times> string) list \<Rightarrow> env \<Rightarrow> event list \<Rightarrow> parsed" where
  "argp_parse w [] e tr = Returned 0 e tr"
| "argp_parse w ((key, arg) # ks) e tr =
     (case parse_arg w key arg e of
        Exited c tr' \<Rightarrow> Exited c (tr @ tr')
      | Returned err e' tr' \<Rightarrow>
          if err = 0 then argp_parse w ks e' (tr @ tr')
          else if err = ARGP_ERR_UNKNOWN then
            (if key = ARGP_KEY_ARG then Exited argp_err_exit_status (tr @ tr' @ [Usage])
             else argp_parse w ks e' (tr @ tr'))
          else Returned err e' (tr @ tr'))"

subsection \<open>\<open>libbpf_print_fn\<close> and \<open>sig_handler\<close>\<close>

definition libbpf_print_fn :: "env \<Rightarrow> libbpf_print_level \<Rightarrow> string \<Rightarrow> event list" where
  "libbpf_print_fn e level msg =
     (if level = LIBBPF_DEBUG \<and> \<not> verbose e then [] else [Err_libbpf level msg])"

definition libbpf_diag :: "world \<Rightarrow> env \<Rightarrow> libbpf_call \<Rightarrow> event list" where
  "libbpf_diag w e c = concat (map (\<lambda>(l, m). libbpf_print_fn e l m) (libbpf_log w c))"

definition sig_handler :: "bool \<Rightarrow> bool" where
  "sig_handler exiting = True"

subsection \<open>\<open>main\<close>\<close>

text \<open>The result of a run: exit status, the final \<open>exiting\<close> flag, and the trace.\<close>

record run =
  status :: int
  exiting :: bool
  trace :: "event list"

text \<open>
  One attach step of \<open>main\<close>: \<open>bpf_program__attach\<close>, \<open>libbpf_get_error\<close>, and on
  an error the message before \<open>goto cleanup\<close>. \<open>attach_progs\<close> performs the steps in the
  order given and stops at the first error, returning the last \<open>err\<close>.
\<close>

fun attach_progs :: "world \<Rightarrow> env \<Rightarrow> prog list \<Rightarrow> int \<times> event list" where
  "attach_progs w e [] = (0, [])"
| "attach_progs w e (p # ps) =
     (let err = attach_error w p;
          tr = libbpf_diag w e (Call_attach p)
      in if err \<noteq> 0 then (err, tr @ [Err_attach p err])
         else (let (err', tr') = attach_progs w e ps in (err', tr @ [Link p] @ tr')))"

text \<open>
  The choice between the two names of the read-ahead entry point:
  \<open>None\<close> is the final \<open>else\<close> branch (neither symbol found).
\<close>

definition readahead_progs :: "string list \<Rightarrow> prog list option" where
  "readahead_progs ksyms =
     (if ''do_page_cache_ra'' \<in> set ksyms
        then Some [Do_page_cache_ra, Do_page_cache_ra_ret]
      else if ''__do_page_cache_readahead'' \<in> set ksyms
        then Some [Do_page_cache_readahead, Do_page_cache_readahead_ret]
      else None)"

text \<open>The label \<open>cleanup\<close>: destroy the object, free the symbols, \<open>return err != 0\<close>.\<close>

definition cleanup :: "world \<Rightarrow> env \<Rightarrow> bool \<Rightarrow> int \<Rightarrow> event list \<Rightarrow> run" where
  "cleanup w e ex err tr =
     \<lparr>status = (if err \<noteq> 0 then 1 else 0), exiting = ex,
      trace = tr @ libbpf_diag w e Call_destroy @ [Bpf_destroy, Ksyms_free]\<rparr>"

text \<open>
  \<open>sleep(env.duration)\<close>: the \<open>int\<close> is converted to \<open>unsigned int\<close>; the call returns
  after that many seconds, or earlier when the handler of a signal has run.
\<close>

definition sleep_elapsed :: "world \<Rightarrow> 32 word \<Rightarrow> nat" where
  "sleep_elapsed w d =
     (case sigint w of
        None \<Rightarrow> unat d
      | Some t \<Rightarrow> if t < unat d then t else unat d)"

definition interrupted :: "world \<Rightarrow> 32 word \<Rightarrow> bool" where
  "interrupted w d = (case sigint w of None \<Rightarrow> False | Some t \<Rightarrow> t < unat d)"

text \<open>From \<open>signal(SIGINT, sig_handler)\<close> to the report, then \<open>cleanup\<close> with \<open>err = 0\<close>.\<close>

definition trace_and_report :: "world \<Rightarrow> env \<Rightarrow> event list \<Rightarrow> run" where
  "trace_and_report w e tr =
     (let t = sleep_elapsed w (duration e);
          ex = (if interrupted w (duration e) then sig_handler False else False);
          histp = hist_at w t
      in cleanup w e ex 0
           (tr @ [Handler_installed,
                  Out ''Tracing fs read-ahead ... Hit Ctrl-C to end.'',
                  Sleep (duration e) t,
                  Out '''',
                  Out_unused_total (unused histp) (total histp),
                  Out_log2_hist (slots histp) (max_slots w) ''msecs'']))"

text \<open>From \<open>ksyms__load()\<close> on: every failure here is a \<open>goto cleanup\<close>.\<close>

definition setup_and_trace :: "world \<Rightarrow> env \<Rightarrow> int \<Rightarrow> event list \<Rightarrow> run" where
  "setup_and_trace w e err tr =
     (case ksyms_load w of
        None \<Rightarrow> cleanup w e False err (tr @ [Err ''failed to load kallsyms''])
      | Some ksyms \<Rightarrow>
          (case readahead_progs ksyms of
             None \<Rightarrow>
               cleanup w e False err
                 (tr @ [Err ''failed to find symbol: do_page_cache_ra/__do_page_cache_readahead, unsupport kernel version''])
           | Some ps \<Rightarrow>
               (let (err1, tr1) = attach_progs w e (ps @ [Page_cache_alloc_ret, Mark_page_accessed])
                in if err1 \<noteq> 0 then cleanup w e False err1 (tr @ tr1)
                   else trace_and_report w e (tr @ tr1))))"

definition main :: "world \<Rightarrow> (int \<times> string) list \<Rightarrow> run" where
  "main w argv =
     (case argp_parse w argv env_initial [] of
        Exited c tr \<Rightarrow> \<lparr>status = c, exiting = False, trace = tr\<rparr>
      | Returned err e tr \<Rightarrow>
          if err \<noteq> 0 then \<lparr>status = err, exiting = False, trace = tr\<rparr>
          else
            (let err = bump_memlock_rlimit w
             in if err \<noteq> 0
                then \<lparr>status = 1, exiting = False,
                      trace = tr @ [Err ''failed to increase rlimit'']\<rparr>
                else
                  (let tr = tr @ libbpf_diag w e Call_open_and_load
                   in if \<not> open_and_load w
                      then \<lparr>status = 1, exiting = False,
                            trace = tr @ [Err ''failed to open and/or load BPF object'']\<rparr>
                      else setup_and_trace w e err tr)))"

subsection \<open>Reading a trace\<close>

text \<open>
  The programs linked, the programs whose attach was tried (linked or failed), the
  durations waited for, and whether a report was printed, in a trace.
\<close>

fun link_of :: "event \<Rightarrow> prog list" where
  "link_of (Link p) = [p]"
| "link_of _ = []"

fun attempt_of :: "event \<Rightarrow> prog list" where
  "attempt_of (Link p) = [p]"
| "attempt_of (Err_attach p err) = [p]"
| "attempt_of _ = []"

fun wait_of :: "event \<Rightarrow> 32 word list" where
  "wait_of (Sleep d t) = [d]"
| "wait_of _ = []"

definition links :: "event list \<Rightarrow> prog list" where
  "links tr = concat (map link_of tr)"

definition attempts :: "event list \<Rightarrow> prog list" where
  "attempts tr = concat (map attempt_of tr)"

definition waits :: "event list \<Rightarrow> 32 word list" where
  "waits tr = concat (map wait_of tr)"

fun is_report :: "event \<Rightarrow> bool" where
  "is_report (Out_unused_total u t) = True"
| "is_report (Out_log2_hist s n u) = True"
| "is_report _ = False"

definition reported :: "event list \<Rightarrow> bool" where
  "reported tr = list_ex is_report tr"

text \<open>A libbpf diagnostic of level \<open>LIBBPF_DEBUG\<close> on stderr.\<close>

fun is_debug :: "event \<Rightarrow> bool" where
  "is_debug (Err_libbpf l m) = (l = LIBBPF_DEBUG)"
| "is_debug _ = False"

definition without_debug :: "event list \<Rightarrow> event list" where
  "without_debug tr = filter (\<lambda>ev. \<not> is_debug ev) tr"

definition is_verbose_key :: "int \<times> string \<Rightarrow> bool" where
  "is_verbose_key ka = (fst ka = key_v)"

text \<open>Two results of the option loop that agree on everything but the verbose flag.\<close>

fun same_config :: "parsed \<Rightarrow> parsed \<Rightarrow> bool" where
  "same_config (Returned err e tr) (Returned err' e' tr') =
     (err = err' \<and> duration e = duration e' \<and> tr = tr')"
| "same_config (Exited c tr) (Exited c' tr') = (c = c' \<and> tr = tr')"
| "same_config _ _ = False"

subsection \<open>A concrete run\<close>

text \<open>
  A kernel of version 5.10 or later on which everything succeeds: \<open>do_page_cache_ra\<close>
  resolves, every attach returns no error, libbpf logs one debug line while loading,
  nobody interrupts, and the histogram holds three pages after any time.
\<close>

definition world_example :: world where
  "world_example =
     \<lparr>strtol = (\<lambda>s. if s = ''10'' then (10, 0) else (0, 0)),
      bump_memlock_rlimit = 0,
      open_and_load = True,
      ksyms_load = Some [''do_page_cache_ra''],
      attach_error = (\<lambda>p. 0),
      libbpf_log = (\<lambda>c. if c = Call_open_and_load then [(LIBBPF_DEBUG, ''libbpf: loading object'')] else []),
      sigint = None,
      hist_at = (\<lambda>t. \<lparr>unused = 1, total = 3, slots = [1, 0, 1]\<rparr>),
      max_slots = 3\<rparr>"

section \<open>The tracker, as the specification describes it\<close>

text \<open>
  The BPF side of the tool (the four instrumentation handlers, the page record map and
  the updates of \<open>hist\<close>) is not among the sources; \<open>readahead.c\<close> only loads it and
  reads \<open>obj->bss->hist\<close>. What follows models that part from the design document.
\<close>

subsection \<open>Latency Histogram\<close>

fun floor_log2 :: "nat \<Rightarrow> nat" where
  "floor_log2 n = (if n < 2 then 0 else Suc (floor_log2 (n div 2)))"

declare floor_log2.simps [simp del]

text \<open>
  Modelled from the spec: \<open>bucket_index\<close> of the missing histogram code, "returns
  floor(log2(max(latency_ms,1))), clamped to [0, N-1]". The number of slots \<open>N\<close> is a
  parameter (the constant is in the missing \<open>readahead.h\<close>).
\<close>

definition bucket_index :: "nat \<Rightarrow> int \<Rightarrow> nat" where
  "bucket_index N latency_ms = min (floor_log2 (nat (max latency_ms 1))) (N - 1)"

text \<open>
  Modelled from the spec: \<open>record_used\<close> of the missing histogram code, under the revised
  contract of the Lifecycle Tracker: it increments the slot of the latency and nothing
  else ("\<open>record_used\<close> increments only the slots, not \<open>total\<close>"). The slot count is the
  length of the slot array.
\<close>

definition record_used :: "int \<Rightarrow> hist \<Rightarrow> hist" where
  "record_used latency_ms h =
     (let i = bucket_index (length (slots h)) latency_ms
      in h\<lparr>slots := (slots h)[i := slots h ! i + 1]\<rparr>)"

text \<open>
  Modelled from the spec: the increment of \<open>total\<close> in the missing page-allocation
  handler ("\<open>total\<close> increments on every successful page-allocated while \<open>window_open\<close>").
\<close>

definition count_allocated :: "hist \<Rightarrow> hist" where
  "count_allocated h = h\<lparr>total := total h + 1\<rparr>"

subsection \<open>Page Record Table\<close>

record page_record =
  page_identity :: nat
  allocated_at :: int

type_synonym page_table = "nat \<rightharpoonup> page_record"

text \<open>
  Modelled from the spec: \<open>insert\<close> of the missing page record map; an existing entry for
  the identity is overwritten.
\<close>

definition insert_record :: "nat \<Rightarrow> int \<Rightarrow> page_table \<Rightarrow> page_table" where
  "insert_record ident ts tbl = tbl(ident \<mapsto> \<lparr>page_identity = ident, allocated_at = ts\<rparr>)"

text \<open>
  Modelled from the spec: \<open>take\<close> of the missing page record map; it removes and returns
  the record if present and returns nothing otherwise.
\<close>

definition take_record :: "nat \<Rightarrow> page_table \<Rightarrow> page_record option \<times> page_table" where
  "take_record ident tbl = (tbl ident, tbl(ident := None))"

subsection \<open>Lifecycle Tracker\<close>

record tracker =
  window_open :: bool
  table :: page_table
  histogram :: hist

datatype tracker_event =
    Window_start
  | Window_end
  | Page_allocated nat int
  | Page_accessed nat int

definition initial :: "nat \<Rightarrow> tracker" where
  "initial N =
     \<lparr>window_open = False, table = Map.empty,
      histogram = \<lparr>unused = 0, total = 0, slots = replicate N 0\<rparr>\<rparr>"

text \<open>
  Modelled from the spec: the four handlers of the missing BPF program, one transition
  of the table of the Lifecycle Tracker each, with the revised contract for \<open>total\<close>.
  Under that contract no handler writes \<open>unused\<close>.
\<close>

fun step :: "tracker \<Rightarrow> tracker_event \<Rightarrow> tracker" where
  "step s Window_start = s\<lparr>window_open := True\<rparr>"
| "step s Window_end = s\<lparr>window_open := False\<rparr>"
| "step s (Page_allocated ident ts) =
     (if window_open s
      then s\<lparr>table := insert_record ident ts (table s),
             histogram := count_allocated (histogram s)\<rparr>
      else s)"
| "step s (Page_accessed ident ts_now) =
     (case take_record ident (table s) of
        (None, tbl) \<Rightarrow> s
      | (Some r, tbl) \<Rightarrow>
          s\<lparr>table := tbl,
            histogram := record_used (ts_now - allocated_at r) (histogram s)\<rparr>)"

definition process :: "tracker \<Rightarrow> tracker_event list \<Rightarrow> tracker" where
  "process s evs = foldl step s evs"

definition is_allocation_of :: "nat \<Rightarrow> tracker_event \<Rightarrow> bool" where
  "is_allocation_of ident ev = (case ev of Page_allocated i ts \<Rightarrow> i = ident | _ \<Rightarrow> False)"

subsection \<open>Concurrent producers\<close>

text \<open>
  Modelled from the spec: the producers of the concurrency model. A producer performs one
  allocate-then-access cycle for its page. Its handlers are not atomic as a whole; only
  the read of the flag, the per-key \<open>insert\<close> and \<open>take\<close> and each counter increment are.
  The program counter of a producer says which of these atomic steps comes next;
  \<open>At_record\<close> holds the latency computed from the record taken.
\<close>

record producer =
  page :: nat
  alloc_ts :: int
  access_ts :: int

datatype pc = At_check | At_insert | At_count | At_take | At_record int | Finished

fun atomic_step :: "producer \<Rightarrow> pc \<Rightarrow> tracker \<Rightarrow> pc \<times> tracker" where
  "atomic_step p At_check s = (if window_open s then At_insert else At_take, s)"
| "atomic_step p At_insert s =
     (At_count, s\<lparr>table := insert_record (page p) (alloc_ts p) (table s)\<rparr>)"
| "atomic_step p At_count s = (At_take, s\<lparr>histogram := count_allocated (histogram s)\<rparr>)"
| "atomic_step p At_take s =
     (case take_record (page p) (table s) of
        (None, tbl) \<Rightarrow> (Finished, s)
      | (Some r, tbl) \<Rightarrow> (At_record (access_ts p - allocated_at r), s\<lparr>table := tbl\<rparr>))"
| "atomic_step p (At_record latency_ms) s =
     (Finished, s\<lparr>histogram := record_used latency_ms (histogram s)\<rparr>)"
| "atomic_step p Finished s = (Finished, s)"

text \<open>
  An interleaving is a schedule: the list of the producers that take the next atomic
  step, in order. Scheduling a producer that has finished, or a number that is no
  producer, changes nothing.
\<close>

fun sched_step :: "producer list \<Rightarrow> tracker \<times> pc list \<Rightarrow> nat \<Rightarrow> tracker \<times> pc list" where
  "sched_step ps (s, pcs) i =
     (if i < length ps \<and> i < length pcs
      then (let (pc', s') = atomic_step (ps ! i) (pcs ! i) s in (s', pcs[i := pc']))
      else (s, pcs))"

definition run_schedule :: "producer list \<Rightarrow> nat list \<Rightarrow> tracker \<Rightarrow> tracker \<times> pc list" where
  "run_schedule ps sched s = foldl (sched_step ps) (s, replicate (length ps) At_check) sched"

definition all_finished :: "pc list \<Rightarrow> bool" where
  "all_finished pcs = list_all (\<lambda>c. c = Finished) pcs"

fun past_count :: "pc \<Rightarrow> nat" where
  "past_count At_check = 0"
| "past_count At_insert = 0"
| "past_count At_count = 0"
| "past_count _ = 1"

fun past_record :: "pc \<Rightarrow> nat" where
  "past_record Finished = 1"
| "past_record _ = 0"

fun holds_record :: "pc \<Rightarrow> bool" where
  "holds_record At_count = True"
| "holds_record At_take = True"
| "holds_record _ = False"

text \<open>How many atomic steps of its cycle a producer has behind it.\<close>

fun rank :: "pc \<Rightarrow> nat" where
  "rank At_check = 0"
| "rank At_insert = 1"
| "rank At_count = 2"
| "rank At_take = 3"
| "rank (At_record latency_ms) = 4"
| "rank Finished = 5"

text \<open>
  What holds of the shared state at every point of an interleaving inside one open
  window: the counters agree with the program counters, and a producer between its
  \<open>insert\<close> and its \<open>take\<close> has its record in the table.
\<close>

definition consistent :: "producer list \<Rightarrow> tracker \<times> pc list \<Rightarrow> bool" where
  "consistent ps c =
     (case c of (s, pcs) \<Rightarrow>
        length pcs = length ps \<and> window_open s \<and> slots (histogram s) \<noteq> [] \<and>
        unused (histogram s) = 0 \<and>
        total (histogram s) = sum_list (map past_count pcs) \<and>
        sum_list (slots (histogram s)) = sum_list (map past_record pcs) \<and>
        (\<forall>i < length ps. holds_record (pcs ! i) \<longrightarrow> table s (page (ps ! i)) \<noteq> None))"

section \<open>Properties of the loader\<close>

lemma links_append: "links (a @ b) = links a @ links b"
  by (simp add: links_def)

lemma attempts_append: "attempts (a @ b) = attempts a @ attempts b"
  by (simp add: attempts_def)

lemma waits_append: "waits (a @ b) = waits a @ waits b"
  by (simp add: waits_def)

lemma reported_append: "reported (a @ b) = (reported a \<or> reported b)"
  by (simp add: reported_def list_ex_iff) blast

lemma libbpf_diag_events: "ev \<in> set (libbpf_diag w e c) \<Longrightarrow> \<exists>l m. ev = Err_libbpf l m"
  by (auto simp: libbpf_diag_def libbpf_print_fn_def split: if_splits)

lemma libbpf_diag_attempts: "attempts (libbpf_diag w e c) = []"
  by (auto simp: attempts_def dest!: libbpf_diag_events)

lemma libbpf_diag_links: "links (libbpf_diag w e c) = []"
  by (auto simp: links_def dest!: libbpf_diag_events)

lemma libbpf_diag_waits: "waits (libbpf_diag w e c) = []"
  by (auto simp: waits_def dest!: libbpf_diag_events)

lemma libbpf_diag_reported: "\<not> reported (libbpf_diag w e c)"
  by (auto simp: reported_def list_ex_iff dest!: libbpf_diag_events)

lemma parse_arg_returned:
  "parse_arg w key arg e = Returned err e' tr' \<Longrightarrow>
     tr' = [] \<and> (err = 0 \<or> err = ARGP_ERR_UNKNOWN \<and> e' = e)"
  by (auto simp: parse_arg_def Let_def split: if_splits prod.splits)

lemma argp_parse_returned:
  "argp_parse w ks e tr = Returned err e' tr' \<Longrightarrow> err = 0 \<and> tr' = tr"
proof (induction ks arbitrary: e tr)
  case Nil
  then show ?case by simp
next
  case (Cons ka ks)
  obtain key arg where ka: "ka = (key, arg)" by (cases ka)
  show ?case
  proof (cases "parse_arg w key arg e")
    case (Exited c m)
    with Cons.prems ka show ?thesis by simp
  next
    case (Returned err1 e1 m)
    then have m: "m = []" and e: "err1 = 0 \<or> err1 = ARGP_ERR_UNKNOWN"
      using parse_arg_returned by blast+
    from Cons.prems ka Returned m e have "argp_parse w ks e1 tr = Returned err e' tr'"
      by (auto split: if_splits)
    then show ?thesis by (rule Cons.IH)
  qed
qed


lemma parse_arg_duration:
  "parse_arg w key arg e = Returned err e' tr' \<Longrightarrow>
     (key = key_d \<longrightarrow>
        snd (strtol w arg) = 0 \<and> duration e' = ucast (fst (strtol w arg)) \<and> 0 < sint (duration e')) \<and>
     (key \<noteq> key_d \<longrightarrow> duration e' = duration e)"
  by (auto simp: parse_arg_def Let_def key_v_def key_d_def split: if_splits prod.splits)

lemma argp_parse_duration:
  "argp_parse w ks e tr = Returned err e' tr' \<Longrightarrow>
     (key_d \<in> fst ` set ks \<longrightarrow> 0 < sint (duration e')) \<and>
     (key_d \<notin> fst ` set ks \<longrightarrow> duration e' = duration e) \<and>
     (\<forall>arg. (key_d, arg) \<in> set ks \<longrightarrow>
        snd (strtol w arg) = 0 \<and> 0 < sint (ucast (fst (strtol w arg)) :: 32 word))"
proof (induction ks arbitrary: e tr)
  case Nil
  then show ?case by simp
next
  case (Cons ka ks)
  obtain key arg where ka: "ka = (key, arg)" by (cases ka)
  show ?case
  proof (cases "parse_arg w key arg e")
    case (Exited c m)
    with Cons.prems ka show ?thesis by simp
  next
    case (Returned err1 e1 m)
    then have m: "m = []" and e: "err1 = 0 \<or> err1 = ARGP_ERR_UNKNOWN"
      using parse_arg_returned by blast+
    from Cons.prems ka Returned m e have "argp_parse w ks e1 tr = Returned err e' tr'"
      by (auto split: if_splits)
    from Cons.IH [OF this] parse_arg_duration [OF Returned] ka
    show ?thesis by auto
  qed
qed

lemma ucast_long_int: "(ucast v :: 32 word) = scast v" for v :: "64 word"
proof -
  have "is_down (ucast :: 64 word \<Rightarrow> 32 word)" by (simp add: is_down)
  then have "(ucast :: 64 word \<Rightarrow> 32 word) = scast" by (rule down_cast_same)
  then show ?thesis by (rule fun_cong)
qed

lemma sint_ucast_fits: "fits_int v \<Longrightarrow> sint (ucast v :: 32 word) = sint v"
proof -
  assume f: "fits_int v"
  have "sint (scast v :: 32 word) = signed_take_bit 31 (sint v)"
    by (simp only: scast_eq sint_sbintrunc') simp
  also from f have "\<dots> = sint v"
    by (simp add: fits_int_def signed_take_bit_int_eq_self)
  finally show ?thesis by (simp only: ucast_long_int)
qed

lemma argp_parse_duration_source:
  "argp_parse w ks e tr = Returned err e' tr' \<Longrightarrow> key_d \<in> fst ` set ks \<Longrightarrow>
   \<exists>arg. (key_d, arg) \<in> set ks \<and> duration e' = ucast (fst (strtol w arg))"
proof (induction ks arbitrary: e tr)
  case Nil
  then show ?case by simp
next
  case (Cons ka ks)
  obtain key arg where ka: "ka = (key, arg)" by (cases ka)
  show ?case
  proof (cases "parse_arg w key arg e")
    case (Exited c m)
    with Cons.prems ka show ?thesis by simp
  next
    case (Returned err1 e1 m)
    then have m: "m = []" and e: "err1 = 0 \<or> err1 = ARGP_ERR_UNKNOWN"
      using parse_arg_returned by blast+
    from Cons.prems(1) ka Returned m e have rest: "argp_parse w ks e1 tr = Returned err e' tr'"
      by (auto split: if_splits)
    show ?thesis
    proof (cases "key_d \<in> fst ` set ks")
      case True
      from Cons.IH [OF rest True] show ?thesis by auto
    next
      case False
      with Cons.prems(2) ka have k: "key = key_d" by auto
      from argp_parse_duration [OF rest] False have "duration e' = duration e1" by simp
      with parse_arg_duration [OF Returned] k ka show ?thesis by auto
    qed
  qed
qed

lemma attach_progs_trace:
  "attach_progs w e ps = (err, tr) \<Longrightarrow>
     waits tr = [] \<and> \<not> reported tr \<and> prefix (attempts tr) ps \<and>
     (ps \<noteq> [] \<longrightarrow> attempts tr \<noteq> []) \<and>
     (err = 0 \<longrightarrow> links tr = ps \<and> attempts tr = ps) \<and>
     (err \<noteq> 0 \<longrightarrow> (\<exists>p. Err_attach p err \<in> set tr)) \<and>
     ((\<forall>p \<in> set ps. attach_error w p = 0) \<longrightarrow> err = 0)"
proof (induction ps arbitrary: err tr)
  case Nil
  then show ?case by (simp add: waits_def reported_def attempts_def links_def)
next
  case (Cons p ps)
  show ?case
  proof (cases "attach_error w p = 0")
    case False
    with Cons.prems have "err = attach_error w p"
      and "tr = libbpf_diag w e (Call_attach p) @ [Err_attach p err]"
      by (auto simp: Let_def)
    with False show ?thesis
      by (simp add: waits_append reported_append attempts_append links_append
          libbpf_diag_waits libbpf_diag_reported libbpf_diag_attempts libbpf_diag_links)
         (auto simp add: waits_def reported_def attempts_def links_def)
  next
    case True
    obtain err' tr' where r: "attach_progs w e ps = (err', tr')" by (cases "attach_progs w e ps")
    with Cons.prems True have "err = err'"
      and tr: "tr = libbpf_diag w e (Call_attach p) @ [Link p] @ tr'"
      by (auto simp: Let_def)
    with Cons.IH [OF r] True show ?thesis
      by (simp add: waits_append reported_append attempts_append links_append
          libbpf_diag_waits libbpf_diag_reported libbpf_diag_attempts libbpf_diag_links)
         (auto simp add: waits_def reported_def attempts_def links_def)
  qed
qed


lemma cleanup_fields:
  "status (cleanup w e ex err tr) = (if err \<noteq> 0 then 1 else 0)"
  "exiting (cleanup w e ex err tr) = ex"
  "trace (cleanup w e ex err tr) = tr @ libbpf_diag w e Call_destroy @ [Bpf_destroy, Ksyms_free]"
  by (simp_all add: cleanup_def)

lemma cleanup_waits: "waits (trace (cleanup w e ex err tr)) = waits tr"
  by (simp add: cleanup_fields waits_append libbpf_diag_waits) (simp add: waits_def)

lemma cleanup_reported: "reported (trace (cleanup w e ex err tr)) = reported tr"
  by (simp add: cleanup_fields reported_append libbpf_diag_reported) (simp add: reported_def)

lemma cleanup_attempts: "attempts (trace (cleanup w e ex err tr)) = attempts tr"
  by (simp add: cleanup_fields attempts_append libbpf_diag_attempts) (simp add: attempts_def)

lemma cleanup_links: "links (trace (cleanup w e ex err tr)) = links tr"
  by (simp add: cleanup_fields links_append libbpf_diag_links) (simp add: links_def)

text \<open>The ways a run can go up to the symbol lookup.\<close>

lemma main_cases:
  obtains
    (exits) c tr where "argp_parse w argv env_initial [] = Exited c tr"
      "main w argv = \<lparr>status = c, exiting = False, trace = tr\<rparr>"
  | (rlimit_fails) e where "argp_parse w argv env_initial [] = Returned 0 e []"
      "bump_memlock_rlimit w \<noteq> 0"
      "main w argv = \<lparr>status = 1, exiting = False, trace = [Err ''failed to increase rlimit'']\<rparr>"
  | (load_fails) e where "argp_parse w argv env_initial [] = Returned 0 e []"
      "bump_memlock_rlimit w = 0" "\<not> open_and_load w"
      "main w argv = \<lparr>status = 1, exiting = False,
         trace = libbpf_diag w e Call_open_and_load @ [Err ''failed to open and/or load BPF object'']\<rparr>"
  | (proceeds) e where "argp_parse w argv env_initial [] = Returned 0 e []"
      "bump_memlock_rlimit w = 0" "open_and_load w"
      "main w argv = setup_and_trace w e 0 (libbpf_diag w e Call_open_and_load)"
proof (cases "argp_parse w argv env_initial []")
  case (Exited c tr)
  then show ?thesis using exits by (simp add: main_def)
next
  case (Returned err e tr)
  then have "err = 0" "tr = []" using argp_parse_returned by blast+
  with Returned show ?thesis using rlimit_fails [of e] load_fails [of e] proceeds [of e]
    by (cases "bump_memlock_rlimit w = 0"; cases "open_and_load w") (simp_all add: main_def Let_def)
qed

lemma parse_arg_exited:
  "parse_arg w key arg e = Exited c m \<Longrightarrow>
     c = argp_err_exit_status \<and> m = [Err (''Invalid duration: '' @ arg), Usage]"
  by (auto simp: parse_arg_def Let_def split: if_splits prod.splits)

lemma argp_parse_exited:
  "argp_parse w ks e tr = Exited c tr' \<Longrightarrow>
     c = argp_err_exit_status \<and> waits tr' = waits tr \<and> reported tr' = reported tr \<and>
     attempts tr' = attempts tr \<and> links tr' = links tr"
proof (induction ks arbitrary: e tr)
  case Nil
  then show ?case by simp
next
  case (Cons ka ks)
  obtain key arg where ka: "ka = (key, arg)" by (cases ka)
  show ?case
  proof (cases "parse_arg w key arg e")
    case (Exited c1 m)
    from parse_arg_exited [OF this] Cons.prems ka Exited show ?thesis
      by (auto simp: waits_def reported_def attempts_def links_def)
  next
    case (Returned err1 e1 m)
    then have m: "m = []" and e: "err1 = 0 \<or> err1 = ARGP_ERR_UNKNOWN"
      using parse_arg_returned by blast+
    show ?thesis
    proof (cases "err1 = 0 \<or> key \<noteq> ARGP_KEY_ARG")
      case True
      with Cons.prems ka Returned m e have "argp_parse w ks e1 tr = Exited c tr'"
        by (auto split: if_splits)
      then show ?thesis by (rule Cons.IH)
    next
      case False
      with Cons.prems ka Returned m e show ?thesis
        by (auto simp: waits_def reported_def attempts_def links_def)
    qed
  qed
qed

lemma setup_and_trace_cases:
  obtains
    (no_ksyms) "ksyms_load w = None"
      "setup_and_trace w e err tr = cleanup w e False err (tr @ [Err ''failed to load kallsyms''])"
  | (no_symbol) ksyms where "ksyms_load w = Some ksyms" "readahead_progs ksyms = None"
      "setup_and_trace w e err tr = cleanup w e False err
         (tr @ [Err ''failed to find symbol: do_page_cache_ra/__do_page_cache_readahead, unsupport kernel version''])"
  | (attach_fails) ksyms ps err1 tr1 where "ksyms_load w = Some ksyms" "readahead_progs ksyms = Some ps"
      "attach_progs w e (ps @ [Page_cache_alloc_ret, Mark_page_accessed]) = (err1, tr1)" "err1 \<noteq> 0"
      "setup_and_trace w e err tr = cleanup w e False err1 (tr @ tr1)"
  | (runs) ksyms ps tr1 where "ksyms_load w = Some ksyms" "readahead_progs ksyms = Some ps"
      "attach_progs w e (ps @ [Page_cache_alloc_ret, Mark_page_accessed]) = (0, tr1)"
      "setup_and_trace w e err tr = trace_and_report w e (tr @ tr1)"
proof (cases "ksyms_load w")
  case None
  then show ?thesis using no_ksyms by (simp add: setup_and_trace_def)
next
  case (Some ksyms)
  show ?thesis
  proof (cases "readahead_progs ksyms")
    case None
    with Some show ?thesis using no_symbol by (simp add: setup_and_trace_def)
  next
    case ps: (Some ps)
    obtain err1 tr1 where a: "attach_progs w e (ps @ [Page_cache_alloc_ret, Mark_page_accessed]) = (err1, tr1)"
      by (cases "attach_progs w e (ps @ [Page_cache_alloc_ret, Mark_page_accessed])")
    show ?thesis
    proof (cases "err1 = 0")
      case True
      with Some ps a show ?thesis using runs [of ksyms ps tr1] by (simp add: setup_and_trace_def)
    next
      case False
      with Some ps a show ?thesis using attach_fails [of ksyms ps err1 tr1]
        by (simp add: setup_and_trace_def)
    qed
  qed
qed

lemma trace_and_report_fields:
  "status (trace_and_report w e tr) = 0"
  "exiting (trace_and_report w e tr) = interrupted w (duration e)"
  "trace (trace_and_report w e tr) =
     tr @ [Handler_installed, Out ''Tracing fs read-ahead ... Hit Ctrl-C to end.'',
           Sleep (duration e) (sleep_elapsed w (duration e)), Out [],
           Out_unused_total (unused (hist_at w (sleep_elapsed w (duration e))))
                            (total (hist_at w (sleep_elapsed w (duration e)))),
           Out_log2_hist (slots (hist_at w (sleep_elapsed w (duration e)))) (max_slots w) ''msecs'']
        @ libbpf_diag w e Call_destroy @ [Bpf_destroy, Ksyms_free]"
  by (simp_all add: trace_and_report_def Let_def cleanup_def sig_handler_def)

lemma attach_progs_ok:
  "attach_progs w e ps = (0, tr) \<Longrightarrow> \<forall>p \<in> set ps. attach_error w p = 0"
proof (induction ps arbitrary: tr)
  case Nil
  then show ?case by simp
next
  case (Cons p ps)
  obtain err' tr' where r: "attach_progs w e ps = (err', tr')" by (cases "attach_progs w e ps")
  with Cons.prems have "attach_error w p = 0 \<and> err' = 0"
    by (auto simp: Let_def split: if_splits)
  with Cons.IH r show ?case by auto
qed

text \<open>Either the run never waits and never reports, or it is a complete tracing run.\<close>

lemma main_waits_cases:
  obtains
    (stopped) "waits (trace (main w argv)) = []" "\<not> reported (trace (main w argv))"
  | (traced) e tr where "argp_parse w argv env_initial [] = Returned 0 e []"
      "main w argv = trace_and_report w e tr" "waits tr = []" "\<not> reported tr"
proof (cases rule: main_cases [of w argv])
  case (exits c tr)
  from argp_parse_exited [OF exits(1)] exits(2) show ?thesis
    using stopped by (simp add: waits_def reported_def)
next
  case (rlimit_fails e)
  then show ?thesis using stopped by (simp add: waits_def reported_def)
next
  case (load_fails e)
  then show ?thesis using stopped
    by (simp add: waits_append reported_append libbpf_diag_waits libbpf_diag_reported)
       (simp add: waits_def reported_def)
next
  case (proceeds e)
  let ?tr = "libbpf_diag w e Call_open_and_load"
  show ?thesis
  proof (cases rule: setup_and_trace_cases [of w e 0 ?tr])
    case no_ksyms
    with proceeds show ?thesis using stopped
      by (simp add: cleanup_waits cleanup_reported waits_append reported_append
          libbpf_diag_waits libbpf_diag_reported)
         (simp add: waits_def reported_def)
  next
    case (no_symbol ksyms)
    with proceeds show ?thesis using stopped
      by (simp add: cleanup_waits cleanup_reported waits_append reported_append
          libbpf_diag_waits libbpf_diag_reported)
         (simp add: waits_def reported_def)
  next
    case (attach_fails ksyms ps err1 tr1)
    from attach_progs_trace [OF attach_fails(3)] attach_fails(5) proceeds show ?thesis
      using stopped
      by (simp add: cleanup_waits cleanup_reported waits_append reported_append
          libbpf_diag_waits libbpf_diag_reported)
  next
    case (runs ksyms ps tr1)
    from attach_progs_trace [OF runs(3)] have "waits (?tr @ tr1) = []" "\<not> reported (?tr @ tr1)"
      by (simp_all add: waits_append reported_append libbpf_diag_waits libbpf_diag_reported)
    with runs(4) proceeds show ?thesis using traced [of e "?tr @ tr1"] by simp
  qed
qed

lemma main_reported_status: "reported (trace (main w argv)) \<Longrightarrow> status (main w argv) = 0"
  by (cases rule: main_waits_cases [of w argv]) (simp_all add: trace_and_report_fields)

lemma main_attach_failure:
  assumes "argp_parse w argv env_initial [] = Returned 0 e []"
    and "bump_memlock_rlimit w = 0" and "open_and_load w"
    and "ksyms_load w = Some ksyms" and "readahead_progs ksyms = Some ps"
    and "\<exists>p \<in> set (ps @ [Page_cache_alloc_ret, Mark_page_accessed]). attach_error w p \<noteq> 0"
  shows "status (main w argv) = 1 \<and> \<not> reported (trace (main w argv))"
proof (cases rule: main_cases [of w argv])
  case (proceeds e')
  with assms(1) have e': "e' = e" by simp
  show ?thesis
  proof (cases rule: setup_and_trace_cases [of w e 0 "libbpf_diag w e Call_open_and_load"])
    case (attach_fails ksyms' ps' err1 tr1)
    from attach_progs_trace [OF attach_fails(3)] attach_fails(4,5) proceeds(4) e'
    show ?thesis
      by (simp add: cleanup_fields(1) cleanup_reported reported_append libbpf_diag_reported)
  next
    case (runs ksyms' ps' tr1)
    from attach_progs_ok [OF runs(3)] runs(1,2) assms(4,5,6) show ?thesis by auto
  qed (use assms in simp_all)
qed (use assms in simp_all)

text \<open>
  The two \<open>goto cleanup\<close> after \<open>ksyms__load\<close> and after the symbol lookup are taken
  with \<open>err = 0\<close>, whatever the command line.
\<close>

lemma main_lookup_failure:
  assumes "argp_parse w argv env_initial [] = Returned 0 e []"
    and "bump_memlock_rlimit w = 0" and "open_and_load w"
    and "ksyms_load w = None \<or> (\<exists>ksyms. ksyms_load w = Some ksyms \<and> readahead_progs ksyms = None)"
  shows "status (main w argv) = 0 \<and> \<not> reported (trace (main w argv))"
proof (cases rule: main_cases [of w argv])
  case (proceeds e')
  have "\<not> reported [Err m]" for m
    by (simp add: reported_def)
  then show ?thesis
    by (cases rule: setup_and_trace_cases [of w e' 0 "libbpf_diag w e' Call_open_and_load"])
       (use assms(4) proceeds(4) in \<open>auto simp: cleanup_fields(1) cleanup_reported reported_append
          libbpf_diag_reported\<close>)
qed (use assms in simp_all)

lemma trace_and_report_waits:
  "waits (trace (trace_and_report w e tr)) = waits tr @ [duration e]"
  by (simp add: trace_and_report_def Let_def cleanup_waits waits_append) (simp add: waits_def)

lemmas eval_main =
  main_def setup_and_trace_def trace_and_report_def cleanup_def readahead_progs_def
  libbpf_diag_def libbpf_print_fn_def sleep_elapsed_def interrupted_def sig_handler_def
  parse_arg_def env_initial_def world_example_def key_v_def key_d_def
  ARGP_ERR_UNKNOWN_def ARGP_KEY_ARG_def argp_err_exit_status_def
  waits_def links_def attempts_def reported_def without_debug_def Let_def

text \<open>
  Claim C1: if the session cannot be set up (kallsyms load failure, symbol-resolution
  failure, any attach failure) the process exits non-zero and prints no report; a clean
  run exits 0. The code keeps this for attach failures (\<open>main_attach_failure\<close>) and
  for clean runs (\<open>main_reported_status\<close>). But the two \<open>goto cleanup\<close> that follow
  \<open>ksyms__load\<close> and the symbol lookup leave \<open>err\<close> at 0 (\<open>main_lookup_failure\<close>):
  on a kernel whose symbols cannot be loaded, and on one that has neither entry point,
  the run prints no report and still exits with status 0.
\<close>

theorem setup_failure_exit_status_zero:
  "status (main (world_example\<lparr>ksyms_load := None\<rparr>) []) = 0 \<and>
   \<not> reported (trace (main (world_example\<lparr>ksyms_load := None\<rparr>) [])) \<and>
   status (main (world_example\<lparr>ksyms_load := Some []\<rparr>) []) = 0 \<and>
   \<not> reported (trace (main (world_example\<lparr>ksyms_load := Some []\<rparr>) []))"
  by (simp add: eval_main)

text \<open>
  Claim C2, as stated: for every command line the wait never sees a non-positive
  duration. Without \<open>-d\<close> the configured duration is still its initial value \<open>-1\<close>
  when \<open>sleep\<close> is called.
\<close>

theorem default_duration_reaches_wait:
  "waits (trace (main world_example [])) = [- 1] \<and> sint (- 1 :: 32 word) \<le> 0"
  by (simp add: eval_main)

text \<open>
  Claim C2, amended: a duration given with \<open>-d\<close> that \<open>strtol\<close> rejects, or whose value
  fits an \<open>int\<close> and is not positive, ends the process in \<open>argp_usage\<close> before anything
  is attached or waited for. A run that reaches the wait without \<open>-d\<close> waits with the
  initial \<open>-1\<close>; a run that reaches it with \<open>-d\<close>, every given value fitting an \<open>int\<close>,
  waits with one of the given values, accepted by \<open>strtol\<close> and positive. Values that do
  not fit an \<open>int\<close> are left out.
\<close>

theorem wait_duration:
  "(\<forall>arg. (key_d, arg) \<in> set argv \<and>
          (snd (strtol w arg) \<noteq> 0 \<or>
           fits_int (fst (strtol w arg)) \<and> sint (fst (strtol w arg)) \<le> 0) \<longrightarrow>
      status (main w argv) = argp_err_exit_status \<and>
      waits (trace (main w argv)) = [] \<and> attempts (trace (main w argv)) = []) \<and>
   (\<forall>d \<in> set (waits (trace (main w argv))).
      (key_d \<notin> fst ` set argv \<longrightarrow> d = - 1) \<and>
      (key_d \<in> fst ` set argv \<and>
       (\<forall>arg. (key_d, arg) \<in> set argv \<longrightarrow> fits_int (fst (strtol w arg))) \<longrightarrow>
         (\<exists>arg. (key_d, arg) \<in> set argv \<and> snd (strtol w arg) = 0 \<and>
                sint d = sint (fst (strtol w arg)) \<and> 0 < sint (fst (strtol w arg)))))"
proof -
  have rejected: "status (main w argv) = argp_err_exit_status \<and>
      waits (trace (main w argv)) = [] \<and> attempts (trace (main w argv)) = []"
    if bad: "(key_d, arg) \<in> set argv \<and>
      (snd (strtol w arg) \<noteq> 0 \<or>
       fits_int (fst (strtol w arg)) \<and> sint (fst (strtol w arg)) \<le> 0)" for arg
  proof (cases "argp_parse w argv env_initial []")
    case (Returned err e tr)
    from argp_parse_duration [OF this] bad
    have "snd (strtol w arg) = 0" and "0 < sint (ucast (fst (strtol w arg)) :: 32 word)"
      by blast+
    with bad sint_ucast_fits [of "fst (strtol w arg)"] show ?thesis by auto
  next
    case (Exited c tr)
    from argp_parse_exited [OF this] Exited show ?thesis
      by (simp add: main_def waits_def attempts_def)
  qed
  have accepted: "(key_d \<notin> fst ` set argv \<longrightarrow> d = - 1) \<and>
      (key_d \<in> fst ` set argv \<and>
       (\<forall>arg. (key_d, arg) \<in> set argv \<longrightarrow> fits_int (fst (strtol w arg))) \<longrightarrow>
         (\<exists>arg. (key_d, arg) \<in> set argv \<and> snd (strtol w arg) = 0 \<and>
                sint d = sint (fst (strtol w arg)) \<and> 0 < sint (fst (strtol w arg))))"
    if d: "d \<in> set (waits (trace (main w argv)))" for d
  proof (cases rule: main_waits_cases [of w argv])
    case stopped
    with d show ?thesis by simp
  next
    case (traced e tr)
    with d have de: "d = duration e"
      by (simp add: trace_and_report_waits)
    note dur = argp_parse_duration [OF traced(1)]
    have default: "key_d \<notin> fst ` set argv \<longrightarrow> d = - 1"
      using dur de by (simp add: env_initial_def)
    have given: "\<exists>arg. (key_d, arg) \<in> set argv \<and> snd (strtol w arg) = 0 \<and>
                sint d = sint (fst (strtol w arg)) \<and> 0 < sint (fst (strtol w arg))"
      if k: "key_d \<in> fst ` set argv"
        and fits: "\<forall>arg. (key_d, arg) \<in> set argv \<longrightarrow> fits_int (fst (strtol w arg))"
    proof -
      from argp_parse_duration_source [OF traced(1) k] de
      obtain arg where a: "(key_d, arg) \<in> set argv" and v: "d = ucast (fst (strtol w arg))"
        by auto
      from fits a have f: "fits_int (fst (strtol w arg))" by simp
      from dur a have "snd (strtol w arg) = 0" and "0 < sint (ucast (fst (strtol w arg)) :: 32 word)"
        by blast+
      with a v sint_ucast_fits [OF f] show ?thesis by auto
    qed
    from default given show ?thesis by blast
  qed
  from rejected accepted show ?thesis by blast
qed

theorem wait_duration_witness:
  "status (main world_example [(key_d, ''0'')]) = argp_err_exit_status \<and>
   waits (trace (main world_example [(key_d, ''0'')])) = [] \<and>
   waits (trace (main world_example [(key_d, ''10'')])) = [10] \<and>
   fits_int (fst (strtol world_example ''10'')) \<and>
   0 < sint (fst (strtol world_example ''10'')) \<and>
   waits (trace (main world_example [(key_v, [])])) = [- 1]"
proof -
  have bad: "(key_d, ''0'') \<in> set [(key_d, ''0'')] \<and>
    (snd (strtol world_example ''0'') \<noteq> 0 \<or>
     fits_int (fst (strtol world_example ''0'')) \<and> sint (fst (strtol world_example ''0'')) \<le> 0)"
    by (simp add: world_example_def fits_int_def)
  have w10: "waits (trace (main world_example [(key_d, ''10'')])) = [10]"
    by (simp add: eval_main)
  have wv: "waits (trace (main world_example [(key_v, [])])) = [- 1]"
    by (simp add: eval_main)
  have fit: "\<forall>arg. (key_d, arg) \<in> set [(key_d, ''10'')] \<longrightarrow> fits_int (fst (strtol world_example arg))"
    by (simp add: world_example_def fits_int_def)
  from wait_duration [of "[(key_d, ''0'')]" world_example] bad
  have "status (main world_example [(key_d, ''0'')]) = argp_err_exit_status \<and>
    waits (trace (main world_example [(key_d, ''0'')])) = []"
    by blast
  moreover from wait_duration [of "[(key_d, ''10'')]" world_example] w10 fit
  have "0 < sint (fst (strtol world_example ''10''))" by auto
  ultimately show ?thesis using w10 wv fit by simp
qed

text \<open>
  The assignment of the \<open>long\<close> to the \<open>int\<close> keeps the low 32 bits only, and the test that
  follows reads the \<open>int\<close>: a value outside the range of \<open>int\<close> is judged by what is left
  of it.
\<close>

lemma parse_arg_narrows:
  "parse_arg (world_example\<lparr>strtol := (\<lambda>s. (- 4294967295, 0))\<rparr>) key_d ''-4294967295'' env_initial =
     Returned 0 (env_initial\<lparr>duration := 1\<rparr>) []"
  by (simp add: parse_arg_def key_v_def key_d_def)

lemma trace_and_report_interrupted:
  assumes "sigint w = Some t" and "t < unat (duration e)"
  shows "status (trace_and_report w e tr) = 0"
    and "exiting (trace_and_report w e tr)"
    and "trace (trace_and_report w e tr) =
           (tr @ [Handler_installed, Out ''Tracing fs read-ahead ... Hit Ctrl-C to end.'']) @
           [Sleep (duration e) t, Out '''',
            Out_unused_total (unused (hist_at w t)) (total (hist_at w t)),
            Out_log2_hist (slots (hist_at w t)) (max_slots w) ''msecs''] @
           (libbpf_diag w e Call_destroy @ [Bpf_destroy, Ksyms_free])"
  using assms
  by (simp_all add: trace_and_report_def Let_def cleanup_def sig_handler_def
      sleep_elapsed_def interrupted_def)

text \<open>
  Claim C7: an operator interrupt during the wait makes the wait return early (at second
  \<open>t\<close>, before the requested duration is over), is not an error (exit status 0, the
  handler has set \<open>exiting\<close>), and the histogram accumulated until then is printed.
\<close>

theorem sigint_ends_wait_with_report:
  assumes "d \<in> set (waits (trace (main w argv)))"
    and "sigint w = Some t" and "t < unat d"
  shows "status (main w argv) = 0 \<and> exiting (main w argv) \<and>
         (\<exists>pre post. trace (main w argv) =
            pre @ [Sleep d t, Out '''',
                   Out_unused_total (unused (hist_at w t)) (total (hist_at w t)),
                   Out_log2_hist (slots (hist_at w t)) (max_slots w) ''msecs''] @ post)"
proof (cases rule: main_waits_cases [of w argv])
  case stopped
  with assms(1) show ?thesis by simp
next
  case (traced e tr)
  with assms(1) have d: "d = duration e"
    by (simp add: trace_and_report_waits)
  from trace_and_report_interrupted [OF assms(2), of e tr] assms(3) d traced(2)
  show ?thesis by (metis (no_types))
qed

theorem sigint_ends_wait_with_report_witness:
  "status (main (world_example\<lparr>sigint := Some 4\<rparr>) [(key_d, ''10'')]) = 0 \<and>
   Sleep 10 4 \<in> set (trace (main (world_example\<lparr>sigint := Some 4\<rparr>) [(key_d, ''10'')])) \<and>
   reported (trace (main (world_example\<lparr>sigint := Some 4\<rparr>) [(key_d, ''10'')]))"
proof -
  let ?w = "world_example\<lparr>sigint := Some 4\<rparr>"
  let ?argv = "[(key_d, ''10'')]"
  have 1: "(10 :: 32 word) \<in> set (waits (trace (main ?w ?argv)))"
    by (simp add: eval_main)
  have 2: "sigint ?w = Some 4" by simp
  have 3: "(4 :: nat) < unat (10 :: 32 word)" by simp
  from sigint_ends_wait_with_report [OF 1 2 3]
  show ?thesis by (auto simp: reported_def)
qed

lemma trace_and_report_attempts:
  "attempts (trace (trace_and_report w e tr)) = attempts tr"
  by (simp add: trace_and_report_def Let_def cleanup_attempts attempts_append) (simp add: attempts_def)

lemma trace_and_report_links:
  "links (trace (trace_and_report w e tr)) = links tr"
  by (simp add: trace_and_report_def Let_def cleanup_links links_append) (simp add: links_def)

text \<open>
  Claim C10: once setup has reached the symbol lookup, the entry point is chosen in a fixed
  order. If \<open>do_page_cache_ra\<close> resolves, the programs whose attach is tried are an
  initial part, at least the first, of the new pair followed by the two page programs,
  whether or not the old name resolves too; the old pair is tried only when the new name
  is absent and the old one resolves; when every attach succeeds exactly those four
  programs are linked. When neither name resolves nothing is attached, the failure is
  reported on stderr, and the run neither waits nor prints a histogram.
\<close>

theorem entry_point_preference:
  assumes "argp_parse w argv env_initial [] = Returned 0 e []"
    and "bump_memlock_rlimit w = 0" and "open_and_load w"
    and "ksyms_load w = Some ksyms"
  shows
    "(''do_page_cache_ra'' \<in> set ksyms \<longrightarrow>
        attempts (trace (main w argv)) \<noteq> [] \<and>
        prefix (attempts (trace (main w argv)))
          [Do_page_cache_ra, Do_page_cache_ra_ret, Page_cache_alloc_ret, Mark_page_accessed] \<and>
        ((\<forall>p. attach_error w p = 0) \<longrightarrow> links (trace (main w argv)) =
          [Do_page_cache_ra, Do_page_cache_ra_ret, Page_cache_alloc_ret, Mark_page_accessed])) \<and>
     (''do_page_cache_ra'' \<notin> set ksyms \<and> ''__do_page_cache_readahead'' \<in> set ksyms \<longrightarrow>
        attempts (trace (main w argv)) \<noteq> [] \<and>
        prefix (attempts (trace (main w argv)))
          [Do_page_cache_readahead, Do_page_cache_readahead_ret, Page_cache_alloc_ret,
           Mark_page_accessed] \<and>
        ((\<forall>p. attach_error w p = 0) \<longrightarrow> links (trace (main w argv)) =
          [Do_page_cache_readahead, Do_page_cache_readahead_ret, Page_cache_alloc_ret,
           Mark_page_accessed])) \<and>
     (''do_page_cache_ra'' \<notin> set ksyms \<and> ''__do_page_cache_readahead'' \<notin> set ksyms \<longrightarrow>
        attempts (trace (main w argv)) = [] \<and> waits (trace (main w argv)) = [] \<and>
        \<not> reported (trace (main w argv)) \<and>
        Err ''failed to find symbol: do_page_cache_ra/__do_page_cache_readahead, unsupport kernel version''
          \<in> set (trace (main w argv)))"
proof (cases rule: main_cases [of w argv])
  case (proceeds e')
  let ?tr = "libbpf_diag w e' Call_open_and_load"
  have none: "attempts [Err m] = []" "waits [Err m] = []" "\<not> reported [Err m]" for m
    by (simp_all add: attempts_def waits_def reported_def)
  show ?thesis
  proof (cases rule: setup_and_trace_cases [of w e' 0 ?tr])
    case no_ksyms
    with assms(4) show ?thesis by simp
  next
    case (no_symbol ksyms')
    have "attempts (trace (main w argv)) = []" "waits (trace (main w argv)) = []"
      "\<not> reported (trace (main w argv))"
      using no_symbol(3) proceeds(4) none
      by (simp_all add: cleanup_attempts cleanup_waits cleanup_reported
          attempts_append waits_append reported_append libbpf_diag_attempts libbpf_diag_waits
          libbpf_diag_reported)
    moreover have "Err ''failed to find symbol: do_page_cache_ra/__do_page_cache_readahead, unsupport kernel version''
          \<in> set (trace (main w argv))"
      using no_symbol(3) proceeds(4) by (simp add: cleanup_fields(3))
    ultimately show ?thesis
      using no_symbol(1,2) assms(4) by (auto simp: readahead_progs_def split: if_splits)
  next
    case (attach_fails ksyms' ps err1 tr1)
    from attach_progs_trace [OF attach_fails(3)] attach_fails(4)
    have "attempts tr1 \<noteq> []"
      and "prefix (attempts tr1) (ps @ [Page_cache_alloc_ret, Mark_page_accessed])"
      and "\<not> (\<forall>p. attach_error w p = 0)"
      by auto
    moreover have "attempts (trace (main w argv)) = attempts tr1"
      using attach_fails(5) proceeds(4)
      by (simp add: cleanup_attempts attempts_append libbpf_diag_attempts)
    ultimately show ?thesis
      using attach_fails(1,2) assms(4) by (auto simp: readahead_progs_def split: if_splits)
  next
    case (runs ksyms' ps tr1)
    from attach_progs_trace [OF runs(3)]
    have "attempts tr1 = ps @ [Page_cache_alloc_ret, Mark_page_accessed]"
      and "links tr1 = ps @ [Page_cache_alloc_ret, Mark_page_accessed]"
      by auto
    moreover have "attempts (trace (main w argv)) = attempts tr1"
      and "links (trace (main w argv)) = links tr1"
      using runs(4) proceeds(4)
      by (simp_all add: trace_and_report_attempts trace_and_report_links attempts_append
          links_append libbpf_diag_attempts libbpf_diag_links)
    ultimately show ?thesis
      using runs(1,2) assms(4) by (auto simp: readahead_progs_def split: if_splits)
  qed
qed (use assms in simp_all)

theorem entry_point_preference_witness:
  "links (trace (main (world_example\<lparr>ksyms_load :=
       Some [''__do_page_cache_readahead'', ''do_page_cache_ra'']\<rparr>) [])) =
     [Do_page_cache_ra, Do_page_cache_ra_ret, Page_cache_alloc_ret, Mark_page_accessed] \<and>
   links (trace (main (world_example\<lparr>ksyms_load := Some [''__do_page_cache_readahead'']\<rparr>) [])) =
     [Do_page_cache_readahead, Do_page_cache_readahead_ret, Page_cache_alloc_ret,
      Mark_page_accessed] \<and>
   attempts (trace (main (world_example\<lparr>ksyms_load := Some [''vfs_read'']\<rparr>) [])) = []"
proof -
  let ?w1 = "world_example\<lparr>ksyms_load := Some [''__do_page_cache_readahead'', ''do_page_cache_ra'']\<rparr>"
  let ?w2 = "world_example\<lparr>ksyms_load := Some [''__do_page_cache_readahead'']\<rparr>"
  let ?w3 = "world_example\<lparr>ksyms_load := Some [''vfs_read'']\<rparr>"
  have p: "argp_parse w [] env_initial [] = Returned 0 env_initial []" for w
    by simp
  have ok: "\<forall>p. attach_error (world_example\<lparr>ksyms_load := k\<rparr>) p = 0" for k
    by (simp add: world_example_def)
  have 1: "links (trace (main ?w1 [])) =
     [Do_page_cache_ra, Do_page_cache_ra_ret, Page_cache_alloc_ret, Mark_page_accessed]"
    using entry_point_preference [OF p, of ?w1 "[''__do_page_cache_readahead'', ''do_page_cache_ra'']"] ok
    by (simp add: world_example_def)
  have 2: "links (trace (main ?w2 [])) =
     [Do_page_cache_readahead, Do_page_cache_readahead_ret, Page_cache_alloc_ret,
      Mark_page_accessed]"
    using entry_point_preference [OF p, of ?w2 "[''__do_page_cache_readahead'']"] ok
    by (simp add: world_example_def)
  have 3: "attempts (trace (main ?w3 [])) = []"
    using entry_point_preference [OF p, of ?w3 "[''vfs_read'']"]
    by (simp add: world_example_def)
  from 1 2 3 show ?thesis by simp
qed

lemma without_debug_append: "without_debug (a @ b) = without_debug a @ without_debug b"
  by (simp add: without_debug_def)

lemma without_debug_Cons:
  "without_debug (x # xs) = (if is_debug x then without_debug xs else x # without_debug xs)"
  by (simp add: without_debug_def)

lemma without_debug_Nil: "without_debug [] = []"
  by (simp add: without_debug_def)

lemma report_not_debug: "is_report ev \<Longrightarrow> \<not> is_debug ev"
  by (cases ev) simp_all

lemma filter_report_without_debug:
  "filter is_report (without_debug tr) = filter is_report tr"
  by (induction tr) (auto simp: without_debug_Cons without_debug_Nil dest: report_not_debug)

lemma libbpf_diag_verbose:
  "without_debug (libbpf_diag w e c) = without_debug (libbpf_diag w e' c)"
proof -
  have "without_debug (concat (map (\<lambda>(l, m). libbpf_print_fn e l m) xs)) =
        without_debug (concat (map (\<lambda>(l, m). libbpf_print_fn e' l m) xs))" for xs
    by (induction xs) (auto simp: libbpf_print_fn_def without_debug_def)
  then show ?thesis by (simp add: libbpf_diag_def)
qed

lemma attach_progs_verbose:
  "fst (attach_progs w e ps) = fst (attach_progs w e' ps) \<and>
   without_debug (snd (attach_progs w e ps)) = without_debug (snd (attach_progs w e' ps))"
proof (induction ps)
  case Nil
  then show ?case by simp
next
  case (Cons p ps)
  then show ?case
    using libbpf_diag_verbose [of w e "Call_attach p" e']
    by (auto simp: Let_def without_debug_append without_debug_Cons without_debug_Nil
        split: prod.splits)
qed

lemma trace_and_report_verbose:
  assumes "duration e = duration e'" and "without_debug tr = without_debug tr'"
  shows "status (trace_and_report w e tr) = status (trace_and_report w e' tr') \<and>
         exiting (trace_and_report w e tr) = exiting (trace_and_report w e' tr') \<and>
         without_debug (trace (trace_and_report w e tr)) =
         without_debug (trace (trace_and_report w e' tr'))"
  using assms libbpf_diag_verbose [of w e Call_destroy e']
  by (simp add: trace_and_report_def Let_def cleanup_def without_debug_append
      without_debug_Cons without_debug_Nil)

lemma cleanup_verbose_all:
  assumes "without_debug tr = without_debug tr'"
  shows "status (cleanup w e ex err tr) = status (cleanup w e' ex err tr') \<and>
         exiting (cleanup w e ex err tr) = exiting (cleanup w e' ex err tr') \<and>
         without_debug (trace (cleanup w e ex err tr)) =
         without_debug (trace (cleanup w e' ex err tr'))"
  using assms libbpf_diag_verbose [of w e Call_destroy e']
  by (simp add: cleanup_def without_debug_append)

lemma setup_and_trace_verbose:
  assumes "duration e = duration e'" and "without_debug tr = without_debug tr'"
  shows "status (setup_and_trace w e err tr) = status (setup_and_trace w e' err tr') \<and>
         exiting (setup_and_trace w e err tr) = exiting (setup_and_trace w e' err tr') \<and>
         without_debug (trace (setup_and_trace w e err tr)) =
         without_debug (trace (setup_and_trace w e' err tr'))"
proof (cases "ksyms_load w")
  case None
  have "without_debug (tr @ m) = without_debug (tr' @ m)" for m
    using assms(2) by (simp add: without_debug_append)
  from cleanup_verbose_all [OF this] None show ?thesis
    by (simp add: setup_and_trace_def)
next
  case (Some ksyms)
  show ?thesis
  proof (cases "readahead_progs ksyms")
    case None
    have "without_debug (tr @ m) = without_debug (tr' @ m)" for m
      using assms(2) by (simp add: without_debug_append)
    from cleanup_verbose_all [OF this] Some None show ?thesis
      by (simp add: setup_and_trace_def)
  next
    case ps: (Some ps)
    let ?ps = "ps @ [Page_cache_alloc_ret, Mark_page_accessed]"
    obtain err1 tr1 where a: "attach_progs w e ?ps = (err1, tr1)"
      by (cases "attach_progs w e ?ps")
    obtain err2 tr2 where b: "attach_progs w e' ?ps = (err2, tr2)"
      by (cases "attach_progs w e' ?ps")
    from attach_progs_verbose [of w e ?ps e'] a b
    have eq: "err1 = err2" "without_debug tr1 = without_debug tr2" by simp_all
    with assms(2) have c: "without_debug (tr @ tr1) = without_debug (tr' @ tr2)"
      by (simp add: without_debug_append)
    show ?thesis
    proof (cases "err1 = 0")
      case True
      from trace_and_report_verbose [OF assms(1) c] Some ps a b eq(1) True show ?thesis
        by (simp add: setup_and_trace_def)
    next
      case False
      from cleanup_verbose_all [OF c] Some ps a b eq(1) False show ?thesis
        by (simp add: setup_and_trace_def)
    qed
  qed
qed

lemma parse_arg_verbose:
  assumes "duration e1 = duration e2" and "key \<noteq> key_v"
  shows "same_config (parse_arg w key arg e1) (parse_arg w key arg e2)"
  using assms by (auto simp: parse_arg_def Let_def split: prod.splits)

lemma argp_parse_verbose:
  "duration e1 = duration e2 \<Longrightarrow>
   same_config (argp_parse w ks e1 tr)
     (argp_parse w (filter (\<lambda>ka. \<not> is_verbose_key ka) ks) e2 tr)"
proof (induction ks arbitrary: e1 e2 tr)
  case Nil
  then show ?case by simp
next
  case (Cons ka ks)
  obtain key arg where ka: "ka = (key, arg)" by (cases ka)
  show ?case
  proof (cases "key = key_v")
    case True
    have "duration (e1\<lparr>verbose := True\<rparr>) = duration e2" using Cons.prems by simp
    from Cons.IH [OF this, of tr] True ka show ?thesis
      by (simp add: is_verbose_key_def parse_arg_def)
  next
    case False
    note sc = parse_arg_verbose [OF Cons.prems False, of w arg]
    show ?thesis
    proof (cases "parse_arg w key arg e1")
      case r1: (Returned err1 a1 m1)
      with sc obtain a2 where r2: "parse_arg w key arg e2 = Returned err1 a2 m1"
        and d: "duration a1 = duration a2"
        by (cases "parse_arg w key arg e2") simp_all
      from Cons.IH [OF d, of "tr @ m1"] r1 r2 d False ka show ?thesis
        by (simp add: is_verbose_key_def)
    next
      case x1: (Exited c1 m1)
      with sc have "parse_arg w key arg e2 = Exited c1 m1"
        by (cases "parse_arg w key arg e2") simp_all
      with x1 False ka show ?thesis
        by (simp add: is_verbose_key_def)
    qed
  qed
qed

lemma same_config_sym: "same_config p q \<Longrightarrow> same_config q p"
  by (cases p; cases q) simp_all

lemma same_config_trans: "same_config p q \<Longrightarrow> same_config q r \<Longrightarrow> same_config p r"
  by (cases p; cases q; cases r) simp_all

text \<open>
  Claim C8: two command lines that differ only in occurrences of \<open>-v\<close>, run against the
  same outside world, end with the same exit status and print the same histogram; their
  traces are equal once the libbpf diagnostics of level \<open>LIBBPF_DEBUG\<close> are removed.
\<close>

theorem verbose_only_affects_debug_output:
  assumes "filter (\<lambda>ka. \<not> is_verbose_key ka) argv = filter (\<lambda>ka. \<not> is_verbose_key ka) argv'"
  shows "status (main w argv) = status (main w argv') \<and>
         exiting (main w argv) = exiting (main w argv') \<and>
         without_debug (trace (main w argv)) = without_debug (trace (main w argv')) \<and>
         filter is_report (trace (main w argv)) = filter is_report (trace (main w argv'))"
proof -
  let ?p = "argp_parse w argv env_initial []" and ?q = "argp_parse w argv' env_initial []"
  have "same_config ?p (argp_parse w (filter (\<lambda>ka. \<not> is_verbose_key ka) argv) env_initial [])"
    by (rule argp_parse_verbose) simp
  moreover have "same_config ?q (argp_parse w (filter (\<lambda>ka. \<not> is_verbose_key ka) argv') env_initial [])"
    by (rule argp_parse_verbose) simp
  ultimately have sc: "same_config ?p ?q"
    using assms same_config_sym same_config_trans by metis
  have view: "status (main w argv) = status (main w argv') \<and>
         exiting (main w argv) = exiting (main w argv') \<and>
         without_debug (trace (main w argv)) = without_debug (trace (main w argv'))"
  proof (cases ?p)
    case x1: (Exited c1 m1)
    with sc have "?q = Exited c1 m1" by (cases ?q) simp_all
    with x1 show ?thesis by (simp add: main_def)
  next
    case r1: (Returned err1 e1 m1)
    with sc obtain e2 where r2: "?q = Returned err1 e2 m1" and d: "duration e1 = duration e2"
      by (cases ?q) simp_all
    have "without_debug (m1 @ libbpf_diag w e1 Call_open_and_load) =
          without_debug (m1 @ libbpf_diag w e2 Call_open_and_load)"
      using libbpf_diag_verbose [of w e1 Call_open_and_load e2]
      by (simp add: without_debug_append)
    from setup_and_trace_verbose [OF d this, of w] this r1 r2 show ?thesis
      by (simp add: main_def Let_def without_debug_append)
  qed
  from view filter_report_without_debug [of "trace (main w argv)"]
    filter_report_without_debug [of "trace (main w argv')"]
  show ?thesis by simp
qed

theorem verbose_only_affects_debug_output_witness:
  "status (main world_example [(key_v, []), (key_d, ''10'')]) =
     status (main world_example [(key_d, ''10'')]) \<and>
   filter is_report (trace (main world_example [(key_v, []), (key_d, ''10'')])) =
     [Out_unused_total 1 3, Out_log2_hist [1, 0, 1] 3 ''msecs''] \<and>
   filter is_report (trace (main world_example [(key_d, ''10'')])) =
     [Out_unused_total 1 3, Out_log2_hist [1, 0, 1] 3 ''msecs''] \<and>
   trace (main world_example [(key_v, []), (key_d, ''10'')]) \<noteq>
     trace (main world_example [(key_d, ''10'')])"
proof -
  let ?a = "[(key_v, []), (key_d, ''10'')]" and ?b = "[(key_d, ''10'')]"
  have f: "filter (\<lambda>ka. \<not> is_verbose_key ka) ?a = filter (\<lambda>ka. \<not> is_verbose_key ka) ?b"
    by (simp add: is_verbose_key_def key_v_def key_d_def)
  have r: "filter is_report (trace (main world_example ?b)) =
     [Out_unused_total 1 3, Out_log2_hist [1, 0, 1] 3 ''msecs'']"
    by (simp add: eval_main)
  have n: "trace (main world_example ?a) \<noteq> trace (main world_example ?b)"
    by (simp add: eval_main)
  from verbose_only_affects_debug_output [OF f, of world_example] r n
  show ?thesis by simp
qed

section \<open>Properties of the tracker\<close>

lemma floor_log2_floorlog: "0 < n \<Longrightarrow> Suc (floor_log2 n) = floorlog 2 n"
proof (induction n rule: floor_log2.induct)
  case (1 n)
  show ?case
  proof (cases "n < 2")
    case True
    with "1.prems" have "n = 1" by simp
    then show ?thesis by (simp add: compute_floorlog floor_log2.simps)
  next
    case False
    then have "0 < n div 2" by simp
    with "1.IH" False have "Suc (floor_log2 (n div 2)) = floorlog 2 (n div 2)" by simp
    with False "1.prems" show ?thesis
      by (subst floor_log2.simps, subst compute_floorlog) simp
  qed
qed

lemma floor_log2_log: "0 < n \<Longrightarrow> floor_log2 n = nat \<lfloor>log 2 (real n)\<rfloor>"
  using floor_log2_floorlog [of n] by (simp add: floorlog_def)

lemma floor_log2_mono: "a \<le> b \<Longrightarrow> floor_log2 a \<le> floor_log2 b"
proof (cases "0 < a")
  case True
  assume "a \<le> b"
  with True have "0 < b" by simp
  from floorlog_mono [OF \<open>a \<le> b\<close>, of 2] floor_log2_floorlog [OF True] floor_log2_floorlog [OF \<open>0 < b\<close>]
  show ?thesis by simp
next
  case False
  then have "floor_log2 a = 0" by (subst floor_log2.simps) simp
  then show ?thesis by simp
qed

lemma floor_log2_power: "floor_log2 (2 ^ k) = k"
proof (induction k)
  case 0
  show ?case by (simp add: floor_log2.simps)
next
  case (Suc k)
  then show ?case by (subst floor_log2.simps) simp
qed

text \<open>
  Claim C4: \<open>bucket_index\<close> is a function of the latency alone that returns
  floor(log2(max(latency_ms, 1))) clamped to the slot range, is monotonic non-decreasing,
  and maps \<open>2 ^ k\<close> to \<open>k\<close> for every slot \<open>k\<close>.
\<close>

theorem bucket_index_spec:
  "bucket_index N latency_ms = min (nat \<lfloor>log 2 (real_of_int (max latency_ms 1))\<rfloor>) (N - 1) \<and>
   (0 < N \<longrightarrow> bucket_index N latency_ms < N) \<and>
   (\<forall>a b. a \<le> b \<longrightarrow> bucket_index N a \<le> bucket_index N b) \<and>
   (\<forall>k < N. bucket_index N (2 ^ k) = k)"
proof (intro conjI allI impI)
  have "0 < nat (max latency_ms 1)" by simp
  from floor_log2_log [OF this]
  show "bucket_index N latency_ms = min (nat \<lfloor>log 2 (real_of_int (max latency_ms 1))\<rfloor>) (N - 1)"
    by (simp add: bucket_index_def)
next
  assume "0 < N"
  then show "bucket_index N latency_ms < N"
    by (simp add: bucket_index_def min_less_iff_disj)
next
  fix a b :: int
  assume "a \<le> b"
  then have "nat (max a 1) \<le> nat (max b 1)" by simp
  from floor_log2_mono [OF this] show "bucket_index N a \<le> bucket_index N b"
    by (simp add: bucket_index_def min_le_iff_disj)
next
  fix k
  assume "k < N"
  have "(1 :: int) \<le> 2 ^ k" by simp
  then have "max ((2 :: int) ^ k) 1 = 2 ^ k" by (simp only: max_absorb1)
  then have "nat (max (2 ^ k) 1) = (2 :: nat) ^ k"
    by (simp add: nat_power_eq)
  then have "bucket_index N (2 ^ k) = min (floor_log2 (2 ^ k)) (N - 1)"
    unfolding bucket_index_def by (rule arg_cong2 [where f = "\<lambda>x y. min (floor_log2 x) y"]) simp
  with \<open>k < N\<close> show "bucket_index N (2 ^ k) = k"
    by (simp add: floor_log2_power)
qed

theorem bucket_index_spec_witness:
  "bucket_index 27 (2 ^ 5) = 5 \<and> bucket_index 27 5 \<le> bucket_index 27 1000 \<and>
   bucket_index 27 5 < 27 \<and> (0 :: nat) < 27 \<and> (5 :: int) \<le> 1000"
proof -
  note s = bucket_index_spec [of 27 5]
  from s have "(5 :: nat) < 27 \<longrightarrow> bucket_index 27 (2 ^ 5) = 5" by blast
  then have a: "bucket_index 27 (2 ^ 5) = 5" by simp
  from s have "(5 :: int) \<le> 1000 \<longrightarrow> bucket_index 27 5 \<le> bucket_index 27 1000" by blast
  then have b: "bucket_index 27 5 \<le> bucket_index 27 1000" by simp
  from s have c: "bucket_index 27 5 < 27" by simp
  from a b c show ?thesis by simp
qed

lemmas eval_tracker =
  process_def initial_def insert_record_def take_record_def
  count_allocated_def record_used_def bucket_index_def Let_def

text \<open>
  Claim C5: a page-allocated event delivered while the window is closed leaves the tracker
  as it was: no page record is created and \<open>total\<close> is unchanged.
\<close>

theorem allocation_outside_window_ignored:
  assumes "\<not> window_open s"
  shows "step s (Page_allocated ident ts) = s \<and>
         table (step s (Page_allocated ident ts)) = table s \<and>
         total (histogram (step s (Page_allocated ident ts))) = total (histogram s)"
  using assms by simp

theorem allocation_outside_window_ignored_witness:
  "\<not> window_open (initial 3) \<and>
   table (step (initial 3) (Page_allocated 3 0)) 3 = None \<and>
   total (histogram (step (initial 3) (Page_allocated 3 0))) = 0"
proof -
  have c: "\<not> window_open (initial 3)" by (simp add: initial_def)
  from allocation_outside_window_ignored [OF c, of 3 0] c show ?thesis
    by (simp add: initial_def)
qed

lemma step_keeps_absent:
  "table s ident = None \<Longrightarrow> \<not> is_allocation_of ident ev \<Longrightarrow> table (step s ev) ident = None"
  by (cases ev)
     (auto simp: is_allocation_of_def insert_record_def take_record_def split: option.splits)

lemma process_keeps_absent:
  "table s ident = None \<Longrightarrow> \<forall>ev \<in> set evs. \<not> is_allocation_of ident ev \<Longrightarrow>
   table (process s evs) ident = None"
proof (induction evs arbitrary: s)
  case Nil
  then show ?case by (simp add: process_def)
next
  case (Cons ev evs)
  from Cons.prems have "table (step s ev) ident = None"
    by (simp add: step_keeps_absent)
  from Cons.IH [OF this] Cons.prems(2) show ?case by (simp add: process_def)
qed

lemma access_leaves_absent: "table (step s (Page_accessed ident ts)) ident = None"
  by (simp add: take_record_def split: option.splits)

text \<open>
  Claim C6: after a page-accessed event for an identity, and any further events that are
  not a page-allocated for that identity, a second page-accessed for it finds no record
  and changes neither the table nor the histogram.
\<close>

theorem second_access_is_noop:
  assumes "\<forall>ev \<in> set evs. \<not> is_allocation_of ident ev"
  shows "fst (take_record ident (table (process (step s (Page_accessed ident t1)) evs))) = None \<and>
         step (process (step s (Page_accessed ident t1)) evs) (Page_accessed ident t2) =
         process (step s (Page_accessed ident t1)) evs"
proof -
  let ?s = "process (step s (Page_accessed ident t1)) evs"
  from process_keeps_absent [OF access_leaves_absent assms]
  have "table ?s ident = None" .
  then show ?thesis by (simp add: take_record_def)
qed

theorem second_access_is_noop_witness:
  "histogram (process (initial 3)
     [Window_start, Page_allocated 1 0, Page_accessed 1 5, Page_allocated 2 6, Page_accessed 1 9]) =
   histogram (process (initial 3)
     [Window_start, Page_allocated 1 0, Page_accessed 1 5, Page_allocated 2 6]) \<and>
   sum_list (slots (histogram (process (initial 3)
     [Window_start, Page_allocated 1 0, Page_accessed 1 5, Page_allocated 2 6, Page_accessed 1 9]))) = 1"
proof -
  let ?s = "process (initial 3) [Window_start, Page_allocated 1 0]"
  have a: "\<forall>ev \<in> set [Page_allocated 2 6]. \<not> is_allocation_of 1 ev"
    by (simp add: is_allocation_of_def)
  have p: "process (initial 3)
     [Window_start, Page_allocated 1 0, Page_accessed 1 5, Page_allocated 2 6, Page_accessed 1 9] =
     step (process (step ?s (Page_accessed 1 5)) [Page_allocated 2 6]) (Page_accessed 1 9)"
    and q: "process (initial 3)
     [Window_start, Page_allocated 1 0, Page_accessed 1 5, Page_allocated 2 6] =
     process (step ?s (Page_accessed 1 5)) [Page_allocated 2 6]"
    by (simp_all add: process_def)
  from second_access_is_noop [OF a, of ?s 5 9] p q
  have e: "process (initial 3)
     [Window_start, Page_allocated 1 0, Page_accessed 1 5, Page_allocated 2 6, Page_accessed 1 9] =
     process (initial 3)
     [Window_start, Page_allocated 1 0, Page_accessed 1 5, Page_allocated 2 6]"
    by simp
  have "sum_list (slots (histogram (process (initial 3)
     [Window_start, Page_allocated 1 0, Page_accessed 1 5, Page_allocated 2 6]))) = 1"
    by code_simp
  with e show ?thesis by simp
qed

lemma sum_list_slot_update:
  "sum_list (xs[i := Suc (xs ! i)]) = (if i < length xs then Suc (sum_list xs) else sum_list xs)"
  for xs :: "nat list"
proof (induction xs arbitrary: i)
  case Nil
  then show ?case by simp
next
  case (Cons x xs)
  then show ?case by (cases i) simp_all
qed

lemma record_used_total: "total (record_used l h) = total h"
  by (simp add: record_used_def Let_def)

lemma record_used_unused: "unused (record_used l h) = unused h"
  by (simp add: record_used_def Let_def)

lemma record_used_length: "length (slots (record_used l h)) = length (slots h)"
  by (simp add: record_used_def Let_def)

lemma record_used_sum:
  "sum_list (slots (record_used l h)) =
     (if slots h = [] then 0 else sum_list (slots h) + 1)"
proof (cases "slots h = []")
  case True
  then show ?thesis by (simp add: record_used_def Let_def)
next
  case False
  then have "bucket_index (length (slots h)) l < length (slots h)"
    by (simp add: bucket_index_def min_less_iff_disj)
  with False show ?thesis
    by (simp add: record_used_def Let_def sum_list_slot_update)
qed







lemma sum_list_map_update:
  "i < length xs \<Longrightarrow>
   sum_list (map f (xs[i := v])) + f (xs ! i) = sum_list (map f xs) + f v"
  for f :: "'a \<Rightarrow> nat"
proof (induction xs arbitrary: i)
  case Nil
  then show ?case by simp
next
  case (Cons x xs)
  then show ?case by (cases i) (simp_all add: add.assoc [symmetric])
qed

lemma distinct_pages:
  assumes "distinct (map page ps)" and "i < length ps" and "j < length ps" and "j \<noteq> i"
  shows "page (ps ! j) \<noteq> page (ps ! i)"
proof -
  from assms have "(map page ps) ! j \<noteq> (map page ps) ! i"
    by (simp add: nth_eq_iff_index_eq del: nth_map)
  with assms(2,3) show ?thesis by simp
qed

lemma sched_step_outside:
  "\<not> (i < length ps \<and> i < length pcs) \<Longrightarrow> sched_step ps (s, pcs) i = (s, pcs)"
  by auto

lemma record_used_nonempty: "(slots (record_used l h) = []) = (slots h = [])"
  using record_used_length [of l h] by (simp only: length_0_conv [symmetric])

lemma sched_step_inside:
  "i < length ps \<Longrightarrow> i < length pcs \<Longrightarrow>
   sched_step ps (s, pcs) i =
     (snd (atomic_step (ps ! i) (pcs ! i) s), pcs[i := fst (atomic_step (ps ! i) (pcs ! i) s)])"
  by (simp add: case_prod_beta)

lemma sched_step_consistent:
  assumes d: "distinct (map page ps)" and c: "consistent ps (s, pcs)"
  shows "consistent ps (sched_step ps (s, pcs) i) \<and>
         (\<forall>j < length ps.
            rank (snd (sched_step ps (s, pcs) i) ! j) =
              (if j = i then min 5 (Suc (rank (pcs ! j))) else rank (pcs ! j)))"
proof (cases "i < length ps")
  case False
  with c show ?thesis by (auto simp: sched_step_outside)
next
  case True
  from c have len: "length pcs = length ps" and win: "window_open s"
    and ne: "slots (histogram s) \<noteq> []"
    and un: "unused (histogram s) = 0"
    and tot: "total (histogram s) = sum_list (map past_count pcs)"
    and sl: "sum_list (slots (histogram s)) = sum_list (map past_record pcs)"
    and rec: "\<And>j. j < length ps \<Longrightarrow> holds_record (pcs ! j) \<Longrightarrow> table s (page (ps ! j)) \<noteq> None"
    by (auto simp: consistent_def)
  from True len have i: "i < length pcs" by simp
  note ss = sched_step_inside [OF True i]
  note upd_count = sum_list_map_update [OF i, of past_count]
  note upd_record = sum_list_map_update [OF i, of past_record]
  note other = distinct_pages [OF d True]
  show ?thesis
  proof (cases "pcs ! i")
    case At_check
    with win len tot sl ne un rec upd_count [of At_insert] upd_record [of At_insert] show ?thesis
      by (auto simp: ss consistent_def nth_list_update)
  next
    case At_insert
    with win len tot sl ne un rec other upd_count [of At_count] upd_record [of At_count] show ?thesis
      by (auto simp: ss consistent_def nth_list_update insert_record_def)
  next
    case At_count
    with win len tot sl ne un rec upd_count [of At_take] upd_record [of At_take] True show ?thesis
      by (auto simp: ss consistent_def nth_list_update count_allocated_def)
  next
    case At_take
    with rec [OF True] obtain r where r: "table s (page (ps ! i)) = Some r" by auto
    let ?l = "access_ts (ps ! i) - allocated_at r"
    from At_take r win len tot sl ne un rec other
      upd_count [of "At_record ?l"] upd_record [of "At_record ?l"]
    show ?thesis
      by (auto simp: ss consistent_def nth_list_update take_record_def)
  next
    case (At_record l)
    with win len tot sl ne un rec upd_count [of Finished] upd_record [of Finished] show ?thesis
      by (auto simp: ss consistent_def nth_list_update record_used_total record_used_sum
          record_used_nonempty record_used_unused)
  next
    case Finished
    then have "pcs[i := Finished] = pcs"
      by (metis list_update_id)
    with Finished c show ?thesis
      by (auto simp: ss)
  qed
qed

lemma run_schedule_snoc:
  "run_schedule ps (sched @ [i]) s = sched_step ps (run_schedule ps sched s) i"
  by (simp add: run_schedule_def)

lemma run_schedule_consistent:
  assumes d: "distinct (map page ps)"
    and s: "window_open s" "slots (histogram s) \<noteq> []" "total (histogram s) = 0"
      "sum_list (slots (histogram s)) = 0" "unused (histogram s) = 0"
  shows "consistent ps (run_schedule ps sched s) \<and>
         (\<forall>j < length ps. rank (snd (run_schedule ps sched s) ! j) = min 5 (count_list sched j))"
proof (induction sched rule: rev_induct)
  case Nil
  from s show ?case
    by (simp add: run_schedule_def consistent_def sum_list_replicate del: sum_list_eq_0_iff)
next
  case (snoc i sched)
  obtain t pcs where r: "run_schedule ps sched s = (t, pcs)"
    by (cases "run_schedule ps sched s")
  with snoc have c: "consistent ps (t, pcs)"
    and k: "\<And>j. j < length ps \<Longrightarrow> rank (pcs ! j) = min 5 (count_list sched j)"
    by simp_all
  from sched_step_consistent [OF d c, of i] k show ?case
    by (auto simp: run_schedule_snoc r)
qed

lemma rank_finished: "rank c = 5 \<Longrightarrow> c = Finished"
  by (cases c) simp_all

lemma all_finished_sums:
  assumes "all_finished pcs"
  shows "sum_list (map past_count pcs) = length pcs"
    and "sum_list (map past_record pcs) = length pcs"
  using assms by (induction pcs) (simp_all add: all_finished_def)

text \<open>
  Claim C9: for every number of producers with distinct page identities, each performing
  one allocate-then-access cycle inside one open window, and for every interleaving of
  their atomic steps in which each producer gets to finish its cycle, all producers end
  finished and the final histogram has \<open>total\<close> equal to the number of producers,
  \<open>unused = 0\<close> and the slots summing to the number of producers.
\<close>

theorem concurrent_cycles_counted:
  assumes "distinct (map page ps)" and "0 < N"
    and "\<forall>i < length ps. 5 \<le> count_list sched i"
    and "run_schedule ps sched (step (initial N) Window_start) = (s, pcs)"
  shows "all_finished pcs \<and> total (histogram s) = length ps \<and>
         unused (histogram s) = 0 \<and> sum_list (slots (histogram s)) = length ps"
proof -
  let ?s0 = "step (initial N) Window_start"
  have "window_open ?s0" "slots (histogram ?s0) \<noteq> []" "total (histogram ?s0) = 0"
    "sum_list (slots (histogram ?s0)) = 0" "unused (histogram ?s0) = 0"
    using assms(2) by (simp_all add: initial_def)
  from run_schedule_consistent [OF assms(1) this, of sched] assms(4)
  have c: "consistent ps (s, pcs)"
    and k: "\<And>j. j < length ps \<Longrightarrow> rank (pcs ! j) = min 5 (count_list sched j)"
    by simp_all
  from c have len: "length pcs = length ps" by (simp add: consistent_def)
  have "pcs ! j = Finished" if "j < length pcs" for j
  proof -
    from that len assms(3) have "min 5 (count_list sched j) = 5" by simp
    with k [of j] that len show ?thesis by (simp add: rank_finished)
  qed
  then have fin: "all_finished pcs"
    by (simp add: all_finished_def list_all_length)
  from c all_finished_sums [OF fin] len
  have "total (histogram s) = length ps" "sum_list (slots (histogram s)) = length ps"
    "unused (histogram s) = 0"
    by (simp_all add: consistent_def)
  with fin show ?thesis by simp
qed

text \<open>
  Run alone, the atomic steps of a producer are the two handlers of the tracker: the
  first three are \<open>page-allocated\<close>, the last two \<open>page-accessed\<close>.
\<close>

lemma atomic_steps_are_handlers:
  "step s (Page_allocated (page p) (alloc_ts p)) =
     (case atomic_step p At_check s of
        (At_insert, s1) \<Rightarrow>
          snd (atomic_step p At_count (snd (atomic_step p At_insert s1)))
      | (c, s1) \<Rightarrow> s1)"
  "step s (Page_accessed (page p) (access_ts p)) =
     (case atomic_step p At_take s of
        (At_record l, s1) \<Rightarrow> snd (atomic_step p (At_record l) s1)
      | (c, s1) \<Rightarrow> s1)"
  by (simp_all add: take_record_def split: option.splits)

theorem concurrent_cycles_counted_witness:
  "distinct (map page [\<lparr>page = 1, alloc_ts = 0, access_ts = 5\<rparr>, \<lparr>page = 2, alloc_ts = 1, access_ts = 9\<rparr>]) \<and>
   total (histogram (fst (run_schedule
      [\<lparr>page = 1, alloc_ts = 0, access_ts = 5\<rparr>, \<lparr>page = 2, alloc_ts = 1, access_ts = 9\<rparr>]
      [0, 1, 1, 0, 1, 0, 0, 1, 1, 0] (step (initial 3) Window_start)))) = 2 \<and>
   unused (histogram (fst (run_schedule
      [\<lparr>page = 1, alloc_ts = 0, access_ts = 5\<rparr>, \<lparr>page = 2, alloc_ts = 1, access_ts = 9\<rparr>]
      [0, 1, 1, 0, 1, 0, 0, 1, 1, 0] (step (initial 3) Window_start)))) = 0 \<and>
   sum_list (slots (histogram (fst (run_schedule
      [\<lparr>page = 1, alloc_ts = 0, access_ts = 5\<rparr>, \<lparr>page = 2, alloc_ts = 1, access_ts = 9\<rparr>]
      [0, 1, 1, 0, 1, 0, 0, 1, 1, 0] (step (initial 3) Window_start))))) = 2"
proof -
  let ?ps = "[\<lparr>page = 1, alloc_ts = 0, access_ts = 5\<rparr>, \<lparr>page = 2, alloc_ts = 1, access_ts = 9\<rparr>]"
  let ?sched = "[0, 1, 1, 0, 1, 0, 0, 1, 1, 0] :: nat list"
  let ?r = "run_schedule ?ps ?sched (step (initial 3) Window_start)"
  have d: "distinct (map page ?ps)" by simp
  have n: "(0 :: nat) < 3" by simp
  have f: "\<forall>i < length ?ps. 5 \<le> count_list ?sched i"
  proof (intro allI impI)
    fix i
    assume "i < length ?ps"
    then have "i = 0 \<or> i = 1" by auto
    then show "5 \<le> count_list ?sched i" by auto
  qed
  have r: "?r = (fst ?r, snd ?r)" by simp
  from concurrent_cycles_counted [OF d n f r] d show ?thesis by simp
qed

end
